theory Spec2Isabelle
  imports Main
begin

section \<open>The advancedResults middleware of flx-compass-server\<close>

text \<open>
  The development embeds \<^verbatim>\<open>src/middleware/advancedResults.js\<close>: the request step that
  turns the query-string parameters of a listing request into a filtered, sorted and
  paginated database query and attaches the result and its pagination metadata to the
  response.

  Conventions of the embedding.
  \<^item> A JavaScript string is a \<^typ>\<open>string\<close>; a character stands for one code unit in
    the range 0 to 255.
  \<^item> A JavaScript number that holds an integer is an \<^typ>\<open>int\<close>; \<open>NaN\<close> is the
    value \<open>None\<close> of an \<^typ>\<open>int option\<close>. The arithmetic of the middleware (one
    subtraction, two multiplications, two comparisons) is exact on doubles while the
    magnitudes stay below \<open>2^53\<close>.
  \<^item> A thrown exception is the left injection of a sum type.
\<close>

subsection \<open>Query values\<close>

text \<open>
  The values the query-string parser of the web framework puts into \<^verbatim>\<open>req.query\<close>:
  a string, an array of values, or a nested object. The properties of an object are kept
  in enumeration order.
\<close>

datatype jsv = Str string | Arr "jsv list" | Obj "(string \<times> jsv) list"

type_synonym props = "(string \<times> jsv) list"

datatype error = TypeError | SyntaxError | DbError string

text \<open>Property read \<^verbatim>\<open>o[k]\<close>: \<open>None\<close> is \<^verbatim>\<open>undefined\<close>.\<close>

definition get_prop :: "props \<Rightarrow> string \<Rightarrow> jsv option" where
  "get_prop ps k = map_of ps k"

text \<open>\<^verbatim>\<open>delete o[k]\<close> on the property list of \<open>o\<close>.\<close>

definition delete_prop :: "props \<Rightarrow> string \<Rightarrow> props" where
  "delete_prop ps k = filter (\<lambda>kv. fst kv \<noteq> k) ps"

text \<open>Truthiness of a value read from the query: only \<^verbatim>\<open>undefined\<close> and the empty string are falsy.\<close>

fun truthy :: "jsv option \<Rightarrow> bool" where
  "truthy None = False"
| "truthy (Some (Str s)) = (s \<noteq> [])"
| "truthy (Some (Arr xs)) = True"
| "truthy (Some (Obj ps)) = True"

subsection \<open>Text helpers: join, split\<close>

text \<open>\<^verbatim>\<open>Array.prototype.join\<close> on an array of strings.\<close>

fun join :: "string \<Rightarrow> string list \<Rightarrow> string" where
  "join sep [] = []"
| "join sep [x] = x"
| "join sep (x # y # ys) = x @ sep @ join sep (y # ys)"

text \<open>
  \<^verbatim>\<open>String.prototype.split\<close> with a one-character separator: \<open>cur\<close> is the piece being
  read, in reverse.
\<close>

fun split_on :: "char \<Rightarrow> string \<Rightarrow> string \<Rightarrow> string list" where
  "split_on d cur [] = [rev cur]"
| "split_on d cur (c # cs) =
     (if c = d then rev cur # split_on d [] cs else split_on d (c # cur) cs)"

definition split :: "char \<Rightarrow> string \<Rightarrow> string list" where
  "split d s = split_on d [] s"

text \<open>\<^verbatim>\<open>ToString\<close> of a query value, as \<^verbatim>\<open>parseInt\<close> applies it to its argument.\<close>

fun toString :: "jsv \<Rightarrow> string" where
  "toString (Str s) = s"
| "toString (Arr xs) = join '','' (map toString xs)"
| "toString (Obj ps) = ''[object Object]''"

definition toString_opt :: "jsv option \<Rightarrow> string" where
  "toString_opt v = (case v of None \<Rightarrow> ''undefined'' | Some x \<Rightarrow> toString x)"

subsection \<open>parseInt with radix 10, and the falsy-or default\<close>

definition is_digit :: "char \<Rightarrow> bool" where
  "is_digit c = (c \<in> set ''0123456789'')"

text \<open>White space that \<^verbatim>\<open>parseInt\<close> strips: TAB, LF, VT, FF, CR, SP and NBSP.\<close>

definition is_space :: "char \<Rightarrow> bool" where
  "is_space c = (c \<in> set [CHR 0x09, CHR 0x0A, CHR 0x0B, CHR 0x0C, CHR 0x0D, CHR 0x20, CHR 0xA0])"

definition digit_val :: "char \<Rightarrow> nat" where
  "digit_val c = of_char c - 48"

definition digits_val :: "string \<Rightarrow> nat" where
  "digits_val ds = foldl (\<lambda>n c. 10 * n + digit_val c) 0 ds"

text \<open>
  \<^verbatim>\<open>parseInt(s, 10)\<close>: leading white space is dropped, one sign is read, then the longest
  run of decimal digits; no digit gives \<open>NaN\<close>. Whatever follows the digits is ignored.
\<close>

definition parseInt :: "string \<Rightarrow> int option" where
  "parseInt s =
     (let t = dropWhile is_space s;
          neg = (case t of [] \<Rightarrow> False | c # r \<Rightarrow> c = CHR ''-'');
          u = (case t of [] \<Rightarrow> [] | c # r \<Rightarrow> if c = CHR ''-'' \<or> c = CHR ''+'' then r else t);
          ds = takeWhile is_digit u
      in if ds = [] then None
         else Some (if neg then - int (digits_val ds) else int (digits_val ds)))"

text \<open>\<^verbatim>\<open>n || d\<close> on a number: \<open>NaN\<close> and zero are falsy.\<close>

definition or_default :: "int option \<Rightarrow> int \<Rightarrow> int" where
  "or_default n d = (case n of None \<Rightarrow> d | Some k \<Rightarrow> if k = 0 then d else k)"

subsection \<open>Pagination\<close>

record page_ref =
  page :: int
  limit :: int

record pagination =
  next_page :: "page_ref option"
  prev_page :: "page_ref option"

text \<open>The locals of the pagination step, lines 37 to 41 of the middleware.\<close>

record paging =
  pg_page :: int
  pg_limit :: int
  startIndex :: int
  endIndex :: int

definition paging_of :: "props \<Rightarrow> paging" where
  "paging_of q =
     (let page = or_default (parseInt (toString_opt (get_prop q ''page''))) 1;
          limit = or_default (parseInt (toString_opt (get_prop q ''limit''))) 1000
      in \<lparr> pg_page = page, pg_limit = limit,
           startIndex = (page - 1) * limit, endIndex = page * limit \<rparr>)"

text \<open>The pagination result, lines 53 to 67.\<close>

definition pagination_of :: "paging \<Rightarrow> int \<Rightarrow> pagination" where
  "pagination_of pg tot =
     \<lparr> next_page = (if endIndex pg < tot
                     then Some \<lparr> page = pg_page pg + 1, limit = pg_limit pg \<rparr> else None),
       prev_page = (if startIndex pg > 0
                     then Some \<lparr> page = pg_page pg - 1, limit = pg_limit pg \<rparr> else None) \<rparr>"

subsection \<open>JSON.stringify\<close>

text \<open>
  The serializer on query values. A string is quoted; the quotation mark, the reverse
  solidus and the control characters below 0x20 are escaped: backspace, form feed, line
  feed, carriage return and tab by their short escapes, the other control characters as
  \<^verbatim>\<open>\u00\<close> and two lower-case hexadecimal digits. Arrays and objects are written
  without white space, properties in enumeration order.
\<close>

definition hex_digit :: "nat \<Rightarrow> char" where
  "hex_digit n = ''0123456789abcdef'' ! (n mod 16)"

definition escape_char :: "char \<Rightarrow> string" where
  "escape_char c =
     (if c = CHR 0x22 then [CHR 0x5C, CHR 0x22]
      else if c = CHR 0x5C then [CHR 0x5C, CHR 0x5C]
      else if c = CHR 0x08 then [CHR 0x5C, CHR ''b'']
      else if c = CHR 0x0C then [CHR 0x5C, CHR ''f'']
      else if c = CHR 0x0A then [CHR 0x5C, CHR ''n'']
      else if c = CHR 0x0D then [CHR 0x5C, CHR ''r'']
      else if c = CHR 0x09 then [CHR 0x5C, CHR ''t'']
      else if of_char c < (32::nat)
        then [CHR 0x5C, CHR ''u'', CHR ''0'', CHR ''0'',
              hex_digit (of_char c div 16), hex_digit (of_char c mod 16)]
      else [c])"

definition quote :: "string \<Rightarrow> string" where
  "quote s = CHR 0x22 # concat (map escape_char s) @ [CHR 0x22]"

fun stringify :: "jsv \<Rightarrow> string" where
  "stringify (Str s) = quote s"
| "stringify (Arr xs) = ''['' @ join '','' (map stringify xs) @ '']''"
| "stringify (Obj ps) =
     ''{'' @ join '','' (map (\<lambda>kv. quote (fst kv) @ '':'' @ stringify (snd kv)) ps) @ ''}''"

subsection \<open>The operator rewrite\<close>

text \<open>
  Line 17: \<^verbatim>\<open>queryStr.replace(/\b(gt|gte|lt|lte|in)\b/g, match => `$${match}`)\<close>.
  The class \<^verbatim>\<open>\w\<close> is the ASCII letters, the digits and the underscore; \<^verbatim>\<open>\b\<close>
  holds at a position when exactly one of the characters before and after it is of that
  class (the ends of the text count as not of the class).

  \<open>match_at p s\<close> is one attempt of the matcher at the position in front of \<open>s\<close>,
  \<open>p\<close> being the character before it: the alternatives are tried in the order of the
  pattern, and an alternative is taken when the rest of the pattern, the closing
  \<^verbatim>\<open>\b\<close>, matches behind it. \<open>replace_from\<close> is the global replacement: at a match the
  replacement is emitted and the scan goes on behind the match, otherwise one character
  is copied.
\<close>

definition is_word :: "char \<Rightarrow> bool" where
  "is_word c =
     (c \<in> set ''abcdefghijklmnopqrstuvwxyzABCDEFGHIJKLMNOPQRSTUVWXYZ0123456789_'')"

definition word_before :: "char option \<Rightarrow> bool" where
  "word_before p = (case p of None \<Rightarrow> False | Some c \<Rightarrow> is_word c)"

definition word_at :: "string \<Rightarrow> bool" where
  "word_at s = (case s of [] \<Rightarrow> False | c # r \<Rightarrow> is_word c)"

definition boundary :: "char option \<Rightarrow> string \<Rightarrow> bool" where
  "boundary p s = (word_before p \<noteq> word_at s)"

definition operators :: "string list" where
  "operators = [''gt'', ''gte'', ''lt'', ''lte'', ''in'']"

definition starts_with :: "string \<Rightarrow> string \<Rightarrow> bool" where
  "starts_with t s = (take (length t) s = t)"

definition match_at :: "char option \<Rightarrow> string \<Rightarrow> string option" where
  "match_at p s =
     (if boundary p s
      then find (\<lambda>t. starts_with t s \<and> boundary (Some (last t)) (drop (length t) s)) operators
      else None)"

function (sequential) replace_from :: "char option \<Rightarrow> string \<Rightarrow> string" where
  "replace_from p [] = []"
| "replace_from p (c # cs) =
     (case match_at p (c # cs) of
        Some t \<Rightarrow> CHR ''$'' # t @ replace_from (Some (last t)) (drop (length t) (c # cs))
      | None \<Rightarrow> c # replace_from (Some c) cs)"
  by pat_completeness auto
termination
proof (relation "measure (\<lambda>(p, s). length s)")
  show "wf (measure (\<lambda>(p :: char option, s :: string). length s))"
    by simp
next
  fix p :: "char option" and c :: char and cs t :: string
  assume "match_at p (c # cs) = Some t"
  then have "find (\<lambda>t. starts_with t (c # cs) \<and>
                boundary (Some (last t)) (drop (length t) (c # cs))) operators = Some t"
    by (simp add: match_at_def split: if_splits)
  then have "t \<in> set operators"
    by (auto simp: find_Some_iff)
  then have "0 < length t"
    by (auto simp: operators_def)
  then show "((Some (last t), drop (length t) (c # cs)), (p, c # cs))
               \<in> measure (\<lambda>(p, s). length s)"
    by simp
next
  fix p :: "char option" and c :: char and cs :: string
  show "((Some c, cs), (p, c # cs)) \<in> measure (\<lambda>(p, s). length s)"
    by simp
qed

definition replace_operators :: "string \<Rightarrow> string" where
  "replace_operators s = replace_from None s"


subsection \<open>JSON.parse\<close>

text \<open>
  The deserializer on the texts the serializer writes: string literals with every JSON
  escape, arrays and objects, no white space between the tokens. Number literals and
  \<^verbatim>\<open>true\<close>, \<^verbatim>\<open>false\<close>, \<^verbatim>\<open>null\<close> have no counterpart in \<^typ>\<open>jsv\<close>, and an escape of a
  code unit above 255 has none in \<^typ>\<open>char\<close>: on those the model answers with
  \<open>None\<close>, as it does on malformed text.

  A property that occurs twice keeps its first position and takes the later value
  (\<open>set_prop\<close>). The tests \<open>length r' < length s\<close> in \<open>parse_elements\<close> and
  \<open>parse_members\<close> carry the termination argument; they compare the text left after a
  value was read with the text it was read from, and they always hold (lemmas
  \<open>parse_elements_eq\<close> and \<open>parse_members_eq\<close> below).
\<close>

definition hex_val :: "char \<Rightarrow> nat option" where
  "hex_val c =
     (if is_digit c then Some (of_char c - 48)
      else if c \<in> set ''abcdef'' then Some (of_char c - 87)
      else if c \<in> set ''ABCDEF'' then Some (of_char c - 55)
      else None)"

definition unescape :: "char \<Rightarrow> char option" where
  "unescape e =
     (if e = CHR 0x22 \<or> e = CHR 0x5C \<or> e = CHR ''/'' then Some e
      else if e = CHR ''b'' then Some (CHR 0x08)
      else if e = CHR ''f'' then Some (CHR 0x0C)
      else if e = CHR ''n'' then Some (CHR 0x0A)
      else if e = CHR ''r'' then Some (CHR 0x0D)
      else if e = CHR ''t'' then Some (CHR 0x09)
      else None)"

definition unicode_escape :: "string \<Rightarrow> char option" where
  "unicode_escape hs =
     (case map hex_val hs of
        [Some a, Some b, Some c, Some d] \<Rightarrow>
          if a = 0 \<and> b = 0 then Some (char_of (16 * c + d)) else None
      | _ \<Rightarrow> None)"

definition cons_fst :: "'a \<Rightarrow> ('a list \<times> 'b) option \<Rightarrow> ('a list \<times> 'b) option" where
  "cons_fst x r = map_option (\<lambda>(xs, y). (x # xs, y)) r"

fun parse_chars :: "string \<Rightarrow> (string \<times> string) option" where
  "parse_chars [] = None"
| "parse_chars (c # cs) =
     (if c = CHR 0x22 then Some ([], cs)
      else if c = CHR 0x5C then
        (case cs of
           [] \<Rightarrow> None
         | e # r \<Rightarrow>
             if e = CHR ''u'' then
               (case unicode_escape (take 4 r) of
                  None \<Rightarrow> None
                | Some x \<Rightarrow> cons_fst x (parse_chars (drop 4 r)))
             else
               (case unescape e of
                  None \<Rightarrow> None
                | Some x \<Rightarrow> cons_fst x (parse_chars r)))
      else if of_char c < (32::nat) then None
      else cons_fst c (parse_chars cs))"

definition set_prop :: "props \<Rightarrow> string \<Rightarrow> jsv \<Rightarrow> props" where
  "set_prop ps k v =
     (if k \<in> fst ` set ps then map (\<lambda>kv. if fst kv = k then (k, v) else kv) ps
      else ps @ [(k, v)])"

function parse_value :: "string \<Rightarrow> (jsv \<times> string) option"
  and parse_elements :: "string \<Rightarrow> (jsv list \<times> string) option"
  and parse_members :: "props \<Rightarrow> string \<Rightarrow> (props \<times> string) option"
where
  "parse_value [] = None"
| "parse_value (c # cs) =
     (if c = CHR 0x22 then map_option (\<lambda>(s, r). (Str s, r)) (parse_chars cs)
      else if c = CHR ''['' then
        (case cs of
           [] \<Rightarrow> None
         | d # r \<Rightarrow> if d = CHR '']'' then Some (Arr [], r)
                   else map_option (\<lambda>(xs, r). (Arr xs, r)) (parse_elements cs))
      else if c = CHR ''{'' then
        (case cs of
           [] \<Rightarrow> None
         | d # r \<Rightarrow> if d = CHR ''}'' then Some (Obj [], r)
                   else map_option (\<lambda>(ps, r). (Obj ps, r)) (parse_members [] cs))
      else None)"
| "parse_elements s =
     (case parse_value s of
        None \<Rightarrow> None
      | Some (v, r) \<Rightarrow>
          (case r of
             [] \<Rightarrow> None
           | d # r' \<Rightarrow>
               if d = CHR '']'' then Some ([v], r')
               else if d = CHR '','' \<and> length r' < length s then cons_fst v (parse_elements r')
               else None))"
| "parse_members acc s =
     (case s of
        [] \<Rightarrow> None
      | q # s1 \<Rightarrow>
          if q \<noteq> CHR 0x22 then None
          else
            (case parse_chars s1 of
               None \<Rightarrow> None
             | Some (k, s2) \<Rightarrow>
                 (case s2 of
                    [] \<Rightarrow> None
                  | col # s3 \<Rightarrow>
                      if col \<noteq> CHR '':'' \<or> \<not> length s3 < length s then None
                      else
                        (case parse_value s3 of
                           None \<Rightarrow> None
                         | Some (v, r) \<Rightarrow>
                             (case r of
                                [] \<Rightarrow> None
                              | d # r' \<Rightarrow>
                                  if d = CHR ''}'' then Some (set_prop acc k v, r')
                                  else if d = CHR '','' \<and> length r' < length s
                                    then parse_members (set_prop acc k v) r'
                                  else None)))))"
  by pat_completeness auto
termination
  by (relation "measure (\<lambda>x. case x of Inl s \<Rightarrow> 2 * length s
                                   | Inr (Inl s) \<Rightarrow> 2 * length s + 1
                                   | Inr (Inr (acc, s)) \<Rightarrow> 2 * length s + 1)") auto

declare parse_elements.simps [simp del] parse_members.simps [simp del]

definition JSON_parse :: "string \<Rightarrow> error + jsv" where
  "JSON_parse s = (case parse_value s of Some (v, []) \<Rightarrow> Inr v | _ \<Rightarrow> Inl SyntaxError)"


subsection \<open>The collection and its query builder\<close>

text \<open>
  The collaborator of the middleware: a collection \<^verbatim>\<open>model\<close> of documents.
  \<^verbatim>\<open>model.find(filter)\<close> and the chained calls only build a query; awaiting the query
  runs it. What the database does with a filter, a projection, an ordering and an
  expansion is not this repository's code: \<open>satisfies\<close> and \<open>arrange\<close> stand for it, and
  \<open>count_fault\<close> and \<open>exec_fault\<close> for a database operation that fails.
\<close>

record db_query =
  conditions :: jsv
  projection :: "string option"
  ordering :: "string option"
  skipped :: "int option"
  limited :: "int option"
  populated :: "jsv option"

definition q_find :: "jsv \<Rightarrow> db_query" where
  "q_find f = \<lparr> conditions = f, projection = None, ordering = None, skipped = None,
               limited = None, populated = None \<rparr>"

definition q_select :: "string \<Rightarrow> db_query \<Rightarrow> db_query" where
  "q_select fs q = q\<lparr> projection := Some fs \<rparr>"

definition q_sort :: "string \<Rightarrow> db_query \<Rightarrow> db_query" where
  "q_sort sp q = q\<lparr> ordering := Some sp \<rparr>"

definition q_skip :: "int \<Rightarrow> db_query \<Rightarrow> db_query" where
  "q_skip n q = q\<lparr> skipped := Some n \<rparr>"

definition q_limit :: "int \<Rightarrow> db_query \<Rightarrow> db_query" where
  "q_limit n q = q\<lparr> limited := Some n \<rparr>"

definition q_populate :: "jsv \<Rightarrow> db_query \<Rightarrow> db_query" where
  "q_populate p q = q\<lparr> populated := Some p \<rparr>"

record 'd model =
  documents :: "'d list"
  satisfies :: "jsv \<Rightarrow> 'd \<Rightarrow> bool"
  arrange :: "db_query \<Rightarrow> 'd list \<Rightarrow> 'd list"
  count_fault :: "error option"
  exec_fault :: "db_query \<Rightarrow> error option"

text \<open>
  \<^verbatim>\<open>model.countDocuments(filter)\<close>; without an argument (\<open>None\<close>) it counts every
  document of the collection.
\<close>

definition countDocuments :: "'d model \<Rightarrow> jsv option \<Rightarrow> error + int" where
  "countDocuments m filt =
     (case count_fault m of
        Some e \<Rightarrow> Inl e
      | None \<Rightarrow>
          Inr (int (length (case filt of
                              None \<Rightarrow> documents m
                            | Some f \<Rightarrow> filter (satisfies m f) (documents m)))))"

text \<open>Awaiting a built query.\<close>

definition exec :: "'d model \<Rightarrow> db_query \<Rightarrow> error + 'd list" where
  "exec m q =
     (case exec_fault m q of
        Some e \<Rightarrow> Inl e
      | None \<Rightarrow> Inr (arrange m q (filter (satisfies m (conditions q)) (documents m))))"

subsection \<open>Objects in the heap\<close>

text \<open>
  \<^verbatim>\<open>req.query\<close> and its copy are two objects, and the middleware deletes properties of
  one of them. An object that is mutated lives in the heap, a list of property lists
  addressed by position; the values of the properties are never written to and stay
  plain values. A reference that points at no object reads as \<^verbatim>\<open>undefined\<close>; the
  query reference of a request that is served points at an object, and the theorems
  about an invocation say so in their first premise.
\<close>

type_synonym ref = nat

type_synonym heap = "props list"

definition lookup :: "heap \<Rightarrow> ref \<Rightarrow> props option" where
  "lookup h r = (if r < length h then Some (h ! r) else None)"

definition alloc :: "heap \<Rightarrow> props \<Rightarrow> ref \<times> heap" where
  "alloc h ps = (length h, h @ [ps])"

text \<open>\<^verbatim>\<open>{ ...o }\<close>: a new object with the own properties of \<open>o\<close>; spreading \<^verbatim>\<open>undefined\<close> gives an empty object.\<close>

definition spread :: "heap \<Rightarrow> ref \<Rightarrow> ref \<times> heap" where
  "spread h r = alloc h (case lookup h r of None \<Rightarrow> [] | Some ps \<Rightarrow> ps)"

text \<open>\<^verbatim>\<open>delete o[k]\<close> on the object that \<open>r\<close> refers to.\<close>

definition delete_at :: "heap \<Rightarrow> ref \<Rightarrow> string \<Rightarrow> heap" where
  "delete_at h r k = (case lookup h r of None \<Rightarrow> h | Some ps \<Rightarrow> h[r := delete_prop ps k])"

record request =
  query :: ref

record 'd response =
  success :: bool
  count :: nat
  pagination :: pagination
  data :: "'d list"

subsection \<open>The middleware, step by step\<close>

definition removeFields :: "string list" where
  "removeFields = [''select'', ''sort'', ''page'', ''limit'']"

text \<open>Lines 5 to 11: copy \<^verbatim>\<open>req.query\<close>, then delete the fields to exclude from the copy.\<close>

definition copy_query :: "heap \<Rightarrow> request \<Rightarrow> ref \<times> heap" where
  "copy_query h req =
     (let (reqQuery, h1) = spread h (query req)
      in (reqQuery, foldl (\<lambda>h' param. delete_at h' reqQuery param) h1 removeFields))"

text \<open>
  Lines 14 to 20: serialize the copy, rewrite the operators, deserialize.
  \<^verbatim>\<open>JSON.stringify(undefined)\<close> is \<^verbatim>\<open>undefined\<close>, which has no \<^verbatim>\<open>replace\<close>.
\<close>

definition rewrite_filter :: "props option \<Rightarrow> error + jsv" where
  "rewrite_filter reqQuery =
     (case reqQuery of
        None \<Rightarrow> Inl TypeError
      | Some ps \<Rightarrow> JSON_parse (replace_operators (stringify (Obj ps))))"

text \<open>
  \<^verbatim>\<open>v.split(',').join(' ')\<close> on a value read from the query: only a string has a
  \<^verbatim>\<open>split\<close> method.
\<close>

definition split_join :: "jsv option \<Rightarrow> error + string" where
  "split_join v =
     (case v of
        Some (Str s) \<Rightarrow> Inr (join '' '' (split (CHR '','') s))
      | _ \<Rightarrow> Inl TypeError)"

text \<open>Lines 23 to 26.\<close>

definition select_step :: "props \<Rightarrow> db_query \<Rightarrow> error + db_query" where
  "select_step rq q =
     (if truthy (get_prop rq ''select'')
      then (case split_join (get_prop rq ''select'') of
              Inl e \<Rightarrow> Inl e
            | Inr fs \<Rightarrow> Inr (q_select fs q))
      else Inr q)"

text \<open>Lines 29 to 34.\<close>

definition sort_step :: "props \<Rightarrow> db_query \<Rightarrow> error + db_query" where
  "sort_step rq q =
     (if truthy (get_prop rq ''sort'')
      then (case split_join (get_prop rq ''sort'') of
              Inl e \<Rightarrow> Inl e
            | Inr sortBy \<Rightarrow> Inr (q_sort sortBy q))
      else Inr (q_sort ''name'' q))"

text \<open>Lines 45 to 47.\<close>

definition populate_step :: "jsv option \<Rightarrow> db_query \<Rightarrow> db_query" where
  "populate_step populate q =
     (case populate of
        None \<Rightarrow> q
      | Some p \<Rightarrow> if truthy populate then q_populate p q else q)"

text \<open>
  Lines 20 to 47 without the count: the query that is awaited on line 50, or the
  exception that the select or the sort step throws. \<open>rq\<close> is the object that
  \<^verbatim>\<open>req.query\<close> refers to.
\<close>

definition build_query :: "jsv option \<Rightarrow> props \<Rightarrow> jsv \<Rightarrow> error + db_query" where
  "build_query populate rq filt =
     (case select_step rq (q_find filt) of
        Inl e \<Rightarrow> Inl e
      | Inr q1 \<Rightarrow>
          (case sort_step rq q1 of
             Inl e \<Rightarrow> Inl e
           | Inr q2 \<Rightarrow>
               Inr (populate_step populate
                     (q_limit (pg_limit (paging_of rq))
                       (q_skip (startIndex (paging_of rq)) q2)))))"

text \<open>
  The middleware \<^verbatim>\<open>advancedResults(model, populate)(req, res, next)\<close>. The result
  \<open>Inr r\<close> stands for: \<open>r\<close> was stored in \<^verbatim>\<open>res.advancedResults\<close> and \<^verbatim>\<open>next()\<close> was
  called; \<open>Inl e\<close> for: \<open>e\<close> was thrown before that. The second component is the heap
  the invocation leaves. Reading a property of \<^verbatim>\<open>req.query\<close> throws when
  \<^verbatim>\<open>req.query\<close> is \<^verbatim>\<open>undefined\<close>.
\<close>

definition advancedResults ::
  "'d model \<Rightarrow> jsv option \<Rightarrow> heap \<Rightarrow> request \<Rightarrow> (error + 'd response) \<times> heap" where
  "advancedResults model populate h req =
     (let (reqQuery, h') = copy_query h req
      in (case rewrite_filter (lookup h' reqQuery) of
            Inl e \<Rightarrow> (Inl e, h')
          | Inr filt \<Rightarrow>
              (case lookup h' (query req) of
                 None \<Rightarrow> (Inl TypeError, h')
               | Some rq \<Rightarrow>
                   (case build_query populate rq filt of
                      Inl e \<Rightarrow> (Inl e, h')
                    | Inr q \<Rightarrow>
                        (case countDocuments model None of
                           Inl e \<Rightarrow> (Inl e, h')
                         | Inr tot \<Rightarrow>
                             (case exec model q of
                                Inl e \<Rightarrow> (Inl e, h')
                              | Inr results \<Rightarrow>
                                  (Inr \<lparr> success = True, count = length results,
                                         pagination = pagination_of (paging_of rq) tot,
                                         data = results \<rparr>, h')))))))"

subsection \<open>The rewrite in the words of the specification\<close>

text \<open>
  The specification describes the rewrite by its result: every standalone occurrence of
  one of the five tokens in the serialized text gets a \<^verbatim>\<open>$\<close> in front. An occurrence of
  \<open>t\<close> at position \<open>i\<close> of \<open>s\<close> is standalone when no word character stands directly
  before it and none directly behind it. \<open>spec_rewrite\<close> copies the text and puts the
  mark in front of the positions where a token stands alone. These definitions follow
  the specification, not the code; \<open>replace_operators\<close> above is the code.

  \<open>spec_from\<close> is the part of \<open>spec_rewrite\<close> from a position on, and \<open>last_opt\<close> the
  character before the position in front of which a text ends.
\<close>

definition spec_standalone :: "string \<Rightarrow> nat \<Rightarrow> string \<Rightarrow> bool" where
  "spec_standalone s i t =
     (take (length t) (drop i s) = t \<and>
      (i = 0 \<or> \<not> is_word (s ! (i - 1))) \<and>
      (length s \<le> i + length t \<or> \<not> is_word (s ! (i + length t))))"

definition spec_mark :: "string \<Rightarrow> nat \<Rightarrow> string" where
  "spec_mark s i = (if \<exists>t \<in> set operators. spec_standalone s i t then ''$'' else [])"

definition spec_rewrite :: "string \<Rightarrow> string" where
  "spec_rewrite s = concat (map (\<lambda>i. spec_mark s i @ [s ! i]) [0..<length s])"

definition last_opt :: "string \<Rightarrow> char option" where
  "last_opt pre = (if pre = [] then None else Some (last pre))"

definition spec_from :: "string \<Rightarrow> nat \<Rightarrow> string" where
  "spec_from s i = concat (map (\<lambda>j. spec_mark s j @ [s ! j]) [i..<length s])"


subsection \<open>Well-formed objects\<close>

text \<open>
  A JavaScript object holds one value for a key. \<open>member\<close> is the text of one property
  in the serialization of an object.
\<close>

fun distinct_keys :: "jsv \<Rightarrow> bool" where
  "distinct_keys (Str s) = True"
| "distinct_keys (Arr xs) = (\<forall>x \<in> set xs. distinct_keys x)"
| "distinct_keys (Obj ps) = (distinct (map fst ps) \<and> (\<forall>kv \<in> set ps. distinct_keys (snd kv)))"


definition member :: "string \<times> jsv \<Rightarrow> string" where
  "member kv = quote (fst kv) @ '':'' @ stringify (snd kv)"

subsection \<open>The serialized text after the rewrite\<close>

text \<open>
  Notions for the proof that the rewritten text always deserializes. \<open>escape s\<close> is what
  stands between the quotation marks of the literal of \<open>s\<close>; a character is \<open>plain\<close> when
  it is written as itself there. \<open>rewritten v\<close> is the serialization of \<open>v\<close> with the
  rewrite applied inside every string literal, keys and values alike.
\<close>

definition plain :: "char \<Rightarrow> bool" where
  "plain c = (c \<noteq> CHR 0x22 \<and> c \<noteq> CHR 0x5C \<and> \<not> of_char c < (32::nat))"

definition escape :: "string \<Rightarrow> string" where
  "escape s = concat (map escape_char s)"


subsection \<open>An example collection\<close>

text \<open>
  Five documents, the numbers 1 to 5. The empty filter matches every document, the filter
  \<^verbatim>\<open>{stock: {$gt: "3"}}\<close> those above 3; a query skips and limits, in the order of the
  collection.
\<close>

definition shelf :: "nat model" where
  "shelf =
     \<lparr> documents = [1, 2, 3, 4, 5],
       satisfies = (\<lambda>f d. f = Obj [] \<or> f = Obj [(''stock'', Obj [(''$gt'', Str ''3'')])] \<and> 3 < d),
       arrange = (\<lambda>q ds. take (nat (case limited q of None \<Rightarrow> 0 | Some n \<Rightarrow> n))
                          (drop (nat (case skipped q of None \<Rightarrow> 0 | Some n \<Rightarrow> n)) ds)),
       count_fault = None,
       exec_fault = (\<lambda>q. None) \<rparr>"


section \<open>Properties\<close>

subsection \<open>The copy of the query and the shape of an invocation\<close>

lemma delete_at_fresh: "delete_at (h @ [ps]) (length h) k = h @ [delete_prop ps k]"
  by (simp add: delete_at_def lookup_def)

lemma copy_query_eq:
  "copy_query h req =
     (length h, h @ [filter (\<lambda>kv. fst kv \<notin> set removeFields)
                       (case lookup h (query req) of None \<Rightarrow> [] | Some ps \<Rightarrow> ps)])"
  by (simp add: copy_query_def spread_def alloc_def removeFields_def delete_at_fresh
      delete_prop_def conj_commute conj_left_commute cong: conj_cong)

lemma lookup_old: "r < length h \<Longrightarrow> lookup (h @ [ps]) r = lookup h r"
  by (simp add: lookup_def nth_append)

lemma lookup_fresh: "lookup (h @ [ps]) (length h) = Some ps"
  by (simp add: lookup_def)

lemma advancedResults_unfold:
  assumes "lookup h (query req) = Some rq"
  shows "advancedResults m populate h req =
     (case rewrite_filter (Some (filter (\<lambda>kv. fst kv \<notin> set removeFields) rq)) of
        Inl e \<Rightarrow> Inl e
      | Inr filt \<Rightarrow>
          (case build_query populate rq filt of
             Inl e \<Rightarrow> Inl e
           | Inr q \<Rightarrow>
               (case countDocuments m None of
                  Inl e \<Rightarrow> Inl e
                | Inr tot \<Rightarrow>
                    (case exec m q of
                       Inl e \<Rightarrow> Inl e
                     | Inr results \<Rightarrow>
                         Inr \<lparr> success = True, count = length results,
                               pagination = pagination_of (paging_of rq) tot,
                               data = results \<rparr>))),
      h @ [filter (\<lambda>kv. fst kv \<notin> set removeFields) rq])"
proof -
  from assms have r: "query req < length h"
    by (simp add: lookup_def split: if_splits)
  show ?thesis
    using assms
    by (simp add: advancedResults_def copy_query_eq lookup_fresh lookup_old [OF r]
        split: sum.splits)
qed

lemma pagination_attached:
  assumes "lookup h (query req) = Some rq"
      and "advancedResults m populate h req = (Inr r, h')"
      and "countDocuments m None = Inr tot"
    shows "pagination r = pagination_of (paging_of rq) tot"
  using assms(2,3) unfolding advancedResults_unfold [OF assms(1)]
  by (auto split: sum.splits)


lemma get_prop_filter:
  "get_prop (filter (\<lambda>kv. fst kv \<notin> S) ps) k = (if k \<in> S then None else get_prop ps k)"
  by (induction ps) (auto simp: get_prop_def)

lemma advancedResults_Inr:
  assumes "lookup h (query req) = Some rq"
      and "advancedResults m populate h req = (Inr r, h')"
  obtains filt q tot where
        "rewrite_filter (Some (filter (\<lambda>kv. fst kv \<notin> set removeFields) rq)) = Inr filt"
    and "build_query populate rq filt = Inr q"
    and "countDocuments m None = Inr tot"
    and "exec m q = Inr (data r)"
    and "r = \<lparr> success = True, count = length (data r),
                pagination = pagination_of (paging_of rq) tot, data = data r \<rparr>"
  using assms(2) unfolding advancedResults_unfold [OF assms(1)]
  by (auto split: sum.splits)

lemma advancedResults_heap:
  assumes "lookup h (query req) = Some rq"
  shows "snd (advancedResults m populate h req)
           = h @ [filter (\<lambda>kv. fst kv \<notin> set removeFields) rq]"
  by (simp add: advancedResults_unfold [OF assms])

lemma build_query_projection:
  assumes "build_query populate rq filt = Inr q"
      and "get_prop rq ''select'' = Some (Str s)" and "s \<noteq> []"
    shows "projection q = Some (join '' '' (split (CHR '','') s))"
  using assms
  by (auto simp: build_query_def populate_step_def q_populate_def q_limit_def q_skip_def
      select_step_def sort_step_def q_select_def q_sort_def q_find_def split_join_def
      split: sum.splits option.splits if_splits)

lemma build_query_ordering:
  assumes "build_query populate rq filt = Inr q"
      and "get_prop rq ''sort'' = Some (Str s)" and "s \<noteq> []"
    shows "ordering q = Some (join '' '' (split (CHR '','') s))"
  using assms
  by (auto simp: build_query_def populate_step_def q_populate_def q_limit_def q_skip_def
      select_step_def sort_step_def q_select_def q_sort_def q_find_def split_join_def
      split: sum.splits option.splits if_splits)

lemma build_query_paging:
  assumes "build_query populate rq filt = Inr q"
  shows "skipped q = Some (startIndex (paging_of rq)) \<and> limited q = Some (pg_limit (paging_of rq))"
  using assms
  by (auto simp: build_query_def populate_step_def q_populate_def q_limit_def q_skip_def
      split: sum.splits option.splits if_splits)

lemma build_query_conditions:
  assumes "build_query populate rq filt = Inr q"
  shows "conditions q = filt"
  using assms
  by (auto simp: build_query_def populate_step_def q_populate_def q_limit_def q_skip_def
      select_step_def sort_step_def q_select_def q_sort_def q_find_def
      split: sum.splits option.splits if_splits)



lemma paging_of_fields:
  "pg_page (paging_of rq) = or_default (parseInt (toString_opt (get_prop rq ''page''))) 1"
  "pg_limit (paging_of rq) = or_default (parseInt (toString_opt (get_prop rq ''limit''))) 1000"
  "startIndex (paging_of rq) = (pg_page (paging_of rq) - 1) * pg_limit (paging_of rq)"
  "endIndex (paging_of rq) = pg_page (paging_of rq) * pg_limit (paging_of rq)"
  by (simp_all add: paging_of_def Let_def)

lemma paging_limit_nonzero: "pg_limit (paging_of rq) \<noteq> 0"
  by (simp add: paging_of_fields or_default_def split: option.splits)

lemma paging_page_nonzero: "pg_page (paging_of rq) \<noteq> 0"
  by (simp add: paging_of_fields or_default_def split: option.splits)

subsection \<open>Pagination arithmetic\<close>



subsection \<open>Defaults\<close>

text \<open>
  C9. The parsed page and limit meet their defaults through \<^verbatim>\<open>||\<close>, which takes the
  default for zero as well as for \<open>NaN\<close>: a \<^verbatim>\<open>page\<close> parameter that parses to 0 gives
  page 1, a \<^verbatim>\<open>limit\<close> parameter that parses to 0 gives limit 1000. The page and the
  limit the middleware works with are therefore never zero, and the query it builds
  never carries the limit 0.
\<close>

theorem zero_takes_default:
  "(parseInt (toString_opt (get_prop rq ''page'')) = Some 0 \<longrightarrow> pg_page (paging_of rq) = 1) \<and>
   (parseInt (toString_opt (get_prop rq ''limit'')) = Some 0 \<longrightarrow> pg_limit (paging_of rq) = 1000) \<and>
   pg_page (paging_of rq) \<noteq> 0 \<and> pg_limit (paging_of rq) \<noteq> 0 \<and>
   (build_query populate rq filt = Inr q \<longrightarrow> limited q \<noteq> Some 0)"
proof -
  have "build_query populate rq filt = Inr q \<longrightarrow> limited q \<noteq> Some 0"
    using build_query_paging [of populate rq filt q] paging_limit_nonzero [of rq] by auto
  then show ?thesis
    by (simp add: paging_limit_nonzero paging_page_nonzero)
       (simp add: paging_of_fields or_default_def)
qed

theorem zero_takes_default_witness:
  "parseInt (toString_opt (get_prop [(''page'', Str ''0''), (''limit'', Str ''0'')] ''page'')) = Some 0 \<and>
   parseInt (toString_opt (get_prop [(''page'', Str ''0''), (''limit'', Str ''0'')] ''limit'')) = Some 0 \<and>
   build_query None [(''page'', Str ''0''), (''limit'', Str ''0'')] (Obj [])
     = Inr \<lparr> conditions = Obj [], projection = None, ordering = Some ''name'',
             skipped = Some 0, limited = Some 1000, populated = None \<rparr> \<and>
   pg_page (paging_of [(''page'', Str ''0''), (''limit'', Str ''0'')]) = 1 \<and>
   pg_limit (paging_of [(''page'', Str ''0''), (''limit'', Str ''0'')]) = 1000"
proof -
  let ?rq = "[(''page'', Str ''0''), (''limit'', Str ''0'')]"
  have a: "parseInt (toString_opt (get_prop ?rq ''page'')) = Some 0"
    by code_simp
  have b: "parseInt (toString_opt (get_prop ?rq ''limit'')) = Some 0"
    by code_simp
  have c: "build_query None ?rq (Obj [])
     = Inr \<lparr> conditions = Obj [], projection = None, ordering = Some ''name'',
             skipped = Some 0, limited = Some 1000, populated = None \<rparr>"
    by code_simp
  show ?thesis
    using zero_takes_default [of ?rq None "Obj []"] a b c by simp
qed




subsection \<open>The total\<close>

text \<open>
  C2. The total that decides about \<open>next\<close> is the result of \<^verbatim>\<open>countDocuments()\<close>
  called without a filter: the number of all documents of the collection, whatever the
  filter of the request is. In the example below the filter matches two documents and
  the first page holds both, yet \<open>next\<close> is present, because the collection has five.
\<close>

theorem total_is_collection_size:
  assumes "lookup h (query req) = Some rq"
      and "advancedResults m populate h req = (Inr r, h')"
    shows "countDocuments m None = Inr (int (length (documents m))) \<and>
           pagination r = pagination_of (paging_of rq) (int (length (documents m)))"
proof -
  from assms(2) obtain tot where t: "countDocuments m None = Inr tot"
    unfolding advancedResults_unfold [OF assms(1)] by (auto split: sum.splits)
  then have "tot = int (length (documents m))"
    by (simp add: countDocuments_def split: option.splits)
  with t pagination_attached [OF assms(1,2) t] show ?thesis by simp
qed


theorem total_is_collection_size_witness:
  "lookup [[(''stock'', Obj [(''gt'', Str ''3'')]), (''limit'', Str ''2'')]] (query \<lparr> query = 0 \<rparr>)
     = Some [(''stock'', Obj [(''gt'', Str ''3'')]), (''limit'', Str ''2'')] \<and>
   advancedResults shelf None
       [[(''stock'', Obj [(''gt'', Str ''3'')]), (''limit'', Str ''2'')]] \<lparr> query = 0 \<rparr>
     = (Inr \<lparr> success = True, count = 2,
              pagination = \<lparr> next_page = Some \<lparr> page = 2, limit = 2 \<rparr>, prev_page = None \<rparr>,
              data = [4, 5] \<rparr>,
        [[(''stock'', Obj [(''gt'', Str ''3'')]), (''limit'', Str ''2'')],
         [(''stock'', Obj [(''gt'', Str ''3'')])]]) \<and>
   countDocuments shelf (Some (Obj [(''stock'', Obj [(''$gt'', Str ''3'')])])) = Inr 2 \<and>
   countDocuments shelf None = Inr 5 \<and>
   pagination_of (paging_of [(''stock'', Obj [(''gt'', Str ''3'')]), (''limit'', Str ''2'')]) 5
     = \<lparr> next_page = Some \<lparr> page = 2, limit = 2 \<rparr>, prev_page = None \<rparr>"
proof -
  let ?rq = "[(''stock'', Obj [(''gt'', Str ''3'')]), (''limit'', Str ''2'')]"
  let ?r = "\<lparr> success = True, count = 2,
              pagination = \<lparr> next_page = Some \<lparr> page = 2, limit = 2 \<rparr>, prev_page = None \<rparr>,
              data = [4, 5 :: nat] \<rparr>"
  have a: "lookup [?rq] (query \<lparr> query = 0 \<rparr>) = Some ?rq"
    by (simp add: lookup_def)
  have b: "advancedResults shelf None [?rq] \<lparr> query = 0 \<rparr>
             = (Inr ?r, [?rq, [(''stock'', Obj [(''gt'', Str ''3'')])]])"
    by code_simp
  have c: "countDocuments shelf (Some (Obj [(''stock'', Obj [(''$gt'', Str ''3'')])])) = Inr 2"
    by code_simp
  have d: "length (documents shelf) = 5"
    by (simp add: shelf_def)
  show ?thesis
    using total_is_collection_size [OF a b] a b c d by simp
qed


subsection \<open>Filter extraction and the frame of the invocation\<close>

text \<open>
  C5. The copy of the query that becomes the filter holds every parameter of the query
  except \<^verbatim>\<open>select\<close>, \<^verbatim>\<open>sort\<close>, \<^verbatim>\<open>page\<close> and \<^verbatim>\<open>limit\<close>, in the order of the query:
  reading a reserved key from it gives \<^verbatim>\<open>undefined\<close>, reading any other key gives what
  the query holds for it.
\<close>

theorem filter_extraction:
  assumes "lookup h (query req) = Some rq"
      and "copy_query h req = (reqQuery, h')"
    shows "lookup h' reqQuery
             = Some (filter (\<lambda>kv. fst kv \<notin> {''select'', ''sort'', ''page'', ''limit''}) rq) \<and>
           (\<forall>ps k. lookup h' reqQuery = Some ps \<longrightarrow>
              get_prop ps k
                = (if k \<in> {''select'', ''sort'', ''page'', ''limit''} then None
                   else get_prop rq k))"
proof -
  let ?S = "{''select'', ''sort'', ''page'', ''limit''}"
  have S: "set removeFields = ?S"
    by (simp add: removeFields_def)
  from assms have "reqQuery = length h"
    and "h' = h @ [filter (\<lambda>kv. fst kv \<notin> set removeFields) rq]"
    by (simp_all add: copy_query_eq)
  then have "lookup h' reqQuery = Some (filter (\<lambda>kv. fst kv \<notin> set removeFields) rq)"
    by (simp add: lookup_fresh)
  then have "lookup h' reqQuery = Some (filter (\<lambda>kv. fst kv \<notin> ?S) rq)"
    unfolding S .
  moreover have "get_prop (filter (\<lambda>kv. fst kv \<notin> ?S) rq) k
                   = (if k \<in> ?S then None else get_prop rq k)" for k
    by (rule get_prop_filter)
  ultimately show ?thesis
    by auto
qed

theorem filter_extraction_witness:
  "lookup [[(''name'', Str ''x''), (''select'', Str ''a,b''), (''page'', Str ''2'')]]
          (query \<lparr> query = 0 \<rparr>)
     = Some [(''name'', Str ''x''), (''select'', Str ''a,b''), (''page'', Str ''2'')] \<and>
   copy_query [[(''name'', Str ''x''), (''select'', Str ''a,b''), (''page'', Str ''2'')]]
              \<lparr> query = 0 \<rparr>
     = (1, [[(''name'', Str ''x''), (''select'', Str ''a,b''), (''page'', Str ''2'')],
            [(''name'', Str ''x'')]]) \<and>
   lookup [[(''name'', Str ''x''), (''select'', Str ''a,b''), (''page'', Str ''2'')],
           [(''name'', Str ''x'')]] 1
     = Some [(''name'', Str ''x'')] \<and>
   get_prop [(''name'', Str ''x'')] ''name'' = Some (Str ''x'') \<and>
   get_prop [(''name'', Str ''x'')] ''select'' = None"
proof -
  let ?rq = "[(''name'', Str ''x''), (''select'', Str ''a,b''), (''page'', Str ''2'')]"
  have a: "lookup [?rq] (query \<lparr> query = 0 \<rparr>) = Some ?rq"
    by (simp add: lookup_def)
  have b: "copy_query [?rq] \<lparr> query = 0 \<rparr> = (1, [?rq, [(''name'', Str ''x'')]])"
    by code_simp
  have c: "lookup [?rq, [(''name'', Str ''x'')]] 1 = Some [(''name'', Str ''x'')]"
    by (simp add: lookup_def)
  show ?thesis
    using filter_extraction [OF a b] a b c by (simp add: get_prop_def)
qed



text \<open>
  C10. The invocation leaves every object that was in the heap before it as it was, the
  query object of the request among them: the reserved keys are deleted from the copy,
  a new object. The select and the sort step read the query object of the request:
  a \<^verbatim>\<open>select\<close> or \<^verbatim>\<open>sort\<close> string of the request is the projection or the ordering of
  the query that produced the attached data.
\<close>

theorem query_not_mutated:
  assumes "lookup h (query req) = Some rq"
      and "advancedResults m populate h req = (out, h')"
    shows "take (length h) h' = h \<and>
           (\<forall>r. r < length h \<longrightarrow> lookup h' r = lookup h r) \<and>
           lookup h' (query req) = Some rq \<and>
           (\<forall>r s. out = Inr r \<and> get_prop rq ''select'' = Some (Str s) \<and> s \<noteq> [] \<longrightarrow>
              (\<exists>filt q. build_query populate rq filt = Inr q \<and> exec m q = Inr (data r) \<and>
                   projection q = Some (join '' '' (split (CHR '','') s)))) \<and>
           (\<forall>r s. out = Inr r \<and> get_prop rq ''sort'' = Some (Str s) \<and> s \<noteq> [] \<longrightarrow>
              (\<exists>filt q. build_query populate rq filt = Inr q \<and> exec m q = Inr (data r) \<and>
                   ordering q = Some (join '' '' (split (CHR '','') s))))"
proof -
  from assms(1) have r: "query req < length h"
    by (simp add: lookup_def split: if_splits)
  have h': "h' = h @ [filter (\<lambda>kv. fst kv \<notin> set removeFields) rq]"
    using advancedResults_heap [OF assms(1), of m populate] assms(2) by simp
  have frame: "take (length h) h' = h"
    by (simp add: h')
  have old: "\<forall>r. r < length h \<longrightarrow> lookup h' r = lookup h r"
    by (simp add: h' lookup_old)
  have orig: "lookup h' (query req) = Some rq"
    using old r assms(1) by simp
  have sel: "\<exists>filt q. build_query populate rq filt = Inr q \<and> exec m q = Inr (data r) \<and>
                 projection q = Some (join '' '' (split (CHR '','') s))"
    if "out = Inr r" and "get_prop rq ''select'' = Some (Str s)" and "s \<noteq> []" for r s
  proof -
    from assms(2) that(1) have "advancedResults m populate h req = (Inr r, h')"
      by simp
    from advancedResults_Inr [OF assms(1) this] obtain filt q
      where "build_query populate rq filt = Inr q" and "exec m q = Inr (data r)"
      by blast
    with build_query_projection [OF _ that(2,3)] show ?thesis
      by blast
  qed
  have srt: "\<exists>filt q. build_query populate rq filt = Inr q \<and> exec m q = Inr (data r) \<and>
                 ordering q = Some (join '' '' (split (CHR '','') s))"
    if "out = Inr r" and "get_prop rq ''sort'' = Some (Str s)" and "s \<noteq> []" for r s
  proof -
    from assms(2) that(1) have "advancedResults m populate h req = (Inr r, h')"
      by simp
    from advancedResults_Inr [OF assms(1) this] obtain filt q
      where "build_query populate rq filt = Inr q" and "exec m q = Inr (data r)"
      by blast
    with build_query_ordering [OF _ that(2,3)] show ?thesis
      by blast
  qed
  from frame old orig sel srt show ?thesis
    by blast
qed


theorem query_not_mutated_witness:
  "lookup [[(''select'', Str ''a,b''), (''sort'', Str ''-a,b''), (''limit'', Str ''2'')]]
          (query \<lparr> query = 0 \<rparr>)
     = Some [(''select'', Str ''a,b''), (''sort'', Str ''-a,b''), (''limit'', Str ''2'')] \<and>
   advancedResults shelf None
       [[(''select'', Str ''a,b''), (''sort'', Str ''-a,b''), (''limit'', Str ''2'')]]
       \<lparr> query = 0 \<rparr>
     = (Inr \<lparr> success = True, count = 2,
              pagination = \<lparr> next_page = Some \<lparr> page = 2, limit = 2 \<rparr>, prev_page = None \<rparr>,
              data = [1, 2] \<rparr>,
        [[(''select'', Str ''a,b''), (''sort'', Str ''-a,b''), (''limit'', Str ''2'')], []]) \<and>
   lookup [[(''select'', Str ''a,b''), (''sort'', Str ''-a,b''), (''limit'', Str ''2'')], []] 0
     = Some [(''select'', Str ''a,b''), (''sort'', Str ''-a,b''), (''limit'', Str ''2'')] \<and>
   (\<exists>filt q. build_query None
                [(''select'', Str ''a,b''), (''sort'', Str ''-a,b''), (''limit'', Str ''2'')] filt
              = Inr q \<and>
             exec shelf q = Inr [1, 2] \<and> projection q = Some ''a b'') \<and>
   (\<exists>filt q. build_query None
                [(''select'', Str ''a,b''), (''sort'', Str ''-a,b''), (''limit'', Str ''2'')] filt
              = Inr q \<and>
             exec shelf q = Inr [1, 2] \<and> ordering q = Some ''-a b'')"
proof -
  let ?rq = "[(''select'', Str ''a,b''), (''sort'', Str ''-a,b''), (''limit'', Str ''2'')]"
  let ?r = "\<lparr> success = True, count = 2,
              pagination = \<lparr> next_page = Some \<lparr> page = 2, limit = 2 \<rparr>, prev_page = None \<rparr>,
              data = [1, 2 :: nat] \<rparr>"
  have a: "lookup [?rq] (query \<lparr> query = 0 \<rparr>) = Some ?rq"
    by (simp add: lookup_def)
  have b: "advancedResults shelf None [?rq] \<lparr> query = 0 \<rparr> = (Inr ?r, [?rq, []])"
    by code_simp
  have c: "get_prop ?rq ''select'' = Some (Str ''a,b'')"
    by code_simp
  have d: "get_prop ?rq ''sort'' = Some (Str ''-a,b'')"
    by code_simp
  have e: "join '' '' (split (CHR '','') ''a,b'') = ''a b''"
    by code_simp
  have f: "join '' '' (split (CHR '','') ''-a,b'') = ''-a b''"
    by code_simp
  note th = query_not_mutated [OF a b]
  from th have g: "lookup [?rq, []] (query \<lparr> query = 0 \<rparr>) = Some ?rq"
    by blast
  from th c have "\<exists>filt q. build_query None ?rq filt = Inr q \<and> exec shelf q = Inr (data ?r) \<and>
                     projection q = Some (join '' '' (split (CHR '','') ''a,b''))"
    by blast
  then have h: "\<exists>filt q. build_query None ?rq filt = Inr q \<and> exec shelf q = Inr [1, 2] \<and>
                  projection q = Some ''a b''"
    unfolding e by simp
  from th d have "\<exists>filt q. build_query None ?rq filt = Inr q \<and> exec shelf q = Inr (data ?r) \<and>
                     ordering q = Some (join '' '' (split (CHR '','') ''-a,b''))"
    by blast
  then have i: "\<exists>filt q. build_query None ?rq filt = Inr q \<and> exec shelf q = Inr [1, 2] \<and>
                  ordering q = Some ''-a b''"
    unfolding f by simp
  from a b g h i show ?thesis
    by simp
qed

subsection \<open>The rewrite meets its specification\<close>

lemma operators_word: "t \<in> set operators \<Longrightarrow> t \<noteq> [] \<and> (\<forall>c \<in> set t. is_word c)"
  by (auto simp: operators_def is_word_def)

lemma take_eq_length: "take (length t) xs = t \<Longrightarrow> length t \<le> length xs"
proof -
  assume "take (length t) xs = t"
  then have "length (take (length t) xs) = length t" by simp
  then show ?thesis by simp
qed

lemma standalone_iff:
  assumes t: "t \<in> set operators"
  shows "(boundary (last_opt pre) rest \<and> starts_with t rest \<and>
          boundary (Some (last t)) (drop (length t) rest))
         \<longleftrightarrow> spec_standalone (pre @ rest) (length pre) t"
proof (cases "starts_with t rest")
  case False
  then show ?thesis
    by (simp add: spec_standalone_def starts_with_def)
next
  case True
  from t have ne: "t \<noteq> []" and w: "\<forall>c \<in> set t. is_word c"
    using operators_word by blast+
  from True have tk: "take (length t) rest = t"
    by (simp add: starts_with_def)
  then have len: "length t \<le> length rest"
    by (rule take_eq_length)
  from tk ne obtain c cs where rest: "rest = c # cs" and c: "c = hd t"
    by (cases rest; cases t) auto
  have "is_word c"
    using c w ne by (cases t) auto
  then have wa: "word_at rest"
    by (simp add: word_at_def rest)
  have b1: "boundary (last_opt pre) rest
              \<longleftrightarrow> (length pre = 0 \<or> \<not> is_word ((pre @ rest) ! (length pre - 1)))"
    using wa
    by (cases pre rule: rev_cases)
       (auto simp: boundary_def word_before_def last_opt_def nth_append)
  have lw: "is_word (last t)"
    using w ne by simp
  have b2: "boundary (Some (last t)) (drop (length t) rest)
              \<longleftrightarrow> (length (pre @ rest) \<le> length pre + length t
                   \<or> \<not> is_word ((pre @ rest) ! (length pre + length t)))"
  proof (cases "drop (length t) rest")
    case Nil
    then show ?thesis
      using lw by (simp add: boundary_def word_before_def word_at_def)
  next
    case (Cons d ds)
    then have lt: "length t < length rest"
      by (cases "length t < length rest") simp_all
    moreover have "rest ! length t = d"
      using Cons hd_drop_conv_nth [OF lt] by simp
    ultimately show ?thesis
      using lw Cons by (simp add: boundary_def word_before_def word_at_def nth_append)
  qed
  show ?thesis
    using True tk b1 b2 by (simp add: spec_standalone_def)
qed


lemma match_at_Some:
  assumes "match_at (last_opt pre) rest = Some t"
  shows "t \<in> set operators \<and> spec_standalone (pre @ rest) (length pre) t"
proof -
  let ?P = "\<lambda>t. starts_with t rest \<and> boundary (Some (last t)) (drop (length t) rest)"
  from assms have b: "boundary (last_opt pre) rest" and f: "find ?P operators = Some t"
    by (simp_all add: match_at_def split: if_splits)
  from f have t: "t \<in> set operators" and "?P t"
    by (auto simp: find_Some_iff)
  with b standalone_iff [OF t, of pre rest] show ?thesis
    by simp
qed

lemma match_at_None:
  assumes "match_at (last_opt pre) rest = None" and t: "t \<in> set operators"
  shows "\<not> spec_standalone (pre @ rest) (length pre) t"
proof -
  let ?P = "\<lambda>t. starts_with t rest \<and> boundary (Some (last t)) (drop (length t) rest)"
  from assms(1) have "\<not> boundary (last_opt pre) rest \<or> find ?P operators = None"
    by (simp add: match_at_def split: if_splits)
  then have "\<not> boundary (last_opt pre) rest \<or> \<not> ?P t"
    using t by (auto simp: find_None_iff)
  with standalone_iff [OF t, of pre rest] show ?thesis
    by blast
qed

lemma no_mark_inside:
  assumes t: "t \<in> set operators" and tk: "take (length t) (drop i s) = t"
      and j: "i < j" "j < i + length t"
    shows "spec_mark s j = []"
proof -
  from tk have len: "length t \<le> length (drop i s)"
    by (rule take_eq_length)
  have "s ! (j - 1) = drop i s ! (j - 1 - i)"
    using j len by simp
  also have "\<dots> = take (length t) (drop i s) ! (j - 1 - i)"
    using j by simp
  also have "\<dots> = t ! (j - 1 - i)"
    by (simp add: tk)
  finally have "s ! (j - 1) \<in> set t"
    using j by simp
  then have "is_word (s ! (j - 1))"
    using operators_word [OF t] by blast
  then show ?thesis
    using j by (simp add: spec_mark_def spec_standalone_def)
qed

lemma spec_from_Cons:
  "i < length s \<Longrightarrow> spec_from s i = spec_mark s i @ s ! i # spec_from s (Suc i)"
  by (simp add: spec_from_def upt_conv_Cons)

lemma spec_from_end: "length s \<le> i \<Longrightarrow> spec_from s i = []"
  by (simp add: spec_from_def)

lemma spec_from_skip:
  assumes "\<forall>j. i \<le> j \<and> j < i + k \<longrightarrow> spec_mark s j = []" and "i + k \<le> length s"
  shows "spec_from s i = take k (drop i s) @ spec_from s (i + k)"
  using assms
proof (induction k arbitrary: i)
  case 0
  then show ?case by simp
next
  case (Suc k)
  from Suc.prems have i: "i < length s" and m: "spec_mark s i = []"
    by auto
  have "spec_from s (Suc i) = take k (drop (Suc i) s) @ spec_from s (Suc i + k)"
    using Suc.prems by (intro Suc.IH) auto
  moreover have "take (Suc k) (drop i s) = s ! i # take k (drop (Suc i) s)"
    using i by (simp add: Cons_nth_drop_Suc [symmetric])
  ultimately show ?case
    by (simp add: spec_from_Cons [OF i] m)
qed

lemma replace_from_spec:
  "p = last_opt pre \<Longrightarrow> replace_from p rest = spec_from (pre @ rest) (length pre)"
proof (induction p rest arbitrary: pre rule: replace_from.induct)
  case (1 p)
  then show ?case
    by (simp add: spec_from_end)
next
  case (2 p c cs)
  let ?s = "pre @ c # cs"
  have i: "length pre < length ?s"
    by simp
  show ?case
  proof (cases "match_at p (c # cs)")
    case None
    then have "spec_mark ?s (length pre) = []"
      using match_at_None [of pre "c # cs"] "2.prems" by (auto simp: spec_mark_def)
    moreover have "replace_from (Some c) cs = spec_from ((pre @ [c]) @ cs) (length (pre @ [c]))"
      using None by (intro "2.IH"(1)) (simp_all add: last_opt_def)
    ultimately show ?thesis
      using None by (simp add: spec_from_Cons [OF i])
  next
    case (Some t)
    then have t: "t \<in> set operators" and st: "spec_standalone ?s (length pre) t"
      using match_at_Some [of pre "c # cs" t] "2.prems" by simp_all
    from t have ne: "t \<noteq> []"
      using operators_word by blast
    from st have tk: "take (length t) (drop (length pre) ?s) = t"
      by (simp add: spec_standalone_def)
    then have tk': "take (length t) (c # cs) = t"
      by simp
    then have len: "length t \<le> length (c # cs)"
      by (rule take_eq_length)
    have split: "(pre @ t) @ drop (length t) (c # cs) = ?s"
      using tk' by (metis append.assoc append_take_drop_id)
    have "replace_from (Some (last t)) (drop (length t) (c # cs))
            = spec_from ((pre @ t) @ drop (length t) (c # cs)) (length (pre @ t))"
      using Some ne by (intro "2.IH"(2)) (simp_all add: last_opt_def)
    then have rec: "replace_from (Some (last t)) (drop (length t) (c # cs))
                      = spec_from ?s (length pre + length t)"
      unfolding split by simp
    have mark: "spec_mark ?s (length pre) = ''$''"
      using t st by (auto simp: spec_mark_def)
    obtain k where k: "length t = Suc k"
      using ne by (cases t) auto
    have "spec_from ?s (Suc (length pre))
            = take k (drop (Suc (length pre)) ?s) @ spec_from ?s (Suc (length pre) + k)"
    proof (rule spec_from_skip)
      show "\<forall>j. Suc (length pre) \<le> j \<and> j < Suc (length pre) + k \<longrightarrow> spec_mark ?s j = []"
        using no_mark_inside [OF t tk] k by auto
      show "Suc (length pre) + k \<le> length ?s"
        using len k by simp
    qed
    then have tl: "spec_from ?s (Suc (length pre))
                     = take k cs @ spec_from ?s (length pre + length t)"
      using k by simp
    have hd: "c # take k cs = t"
      using tk' k by simp
    have "spec_from ?s (length pre) = ''$'' @ c # spec_from ?s (Suc (length pre))"
      using spec_from_Cons [OF i] mark by simp
    also have "\<dots> = CHR ''$'' # (c # take k cs) @ spec_from ?s (length pre + length t)"
      by (simp add: tl)
    finally have "spec_from ?s (length pre)
                    = CHR ''$'' # t @ spec_from ?s (length pre + length t)"
      unfolding hd .
    then show ?thesis
      using Some rec by simp
  qed
qed

lemma replace_operators_spec: "replace_operators s = spec_rewrite s"
  using replace_from_spec [of None "[]" s]
  by (simp add: replace_operators_def spec_rewrite_def spec_from_def last_opt_def)


text \<open>
  C3. The global replacement of line 17 puts a \<^verbatim>\<open>$\<close> in front of every standalone
  occurrence of \<^verbatim>\<open>gt\<close>, \<^verbatim>\<open>gte\<close>, \<^verbatim>\<open>lt\<close>, \<^verbatim>\<open>lte\<close> or \<^verbatim>\<open>in\<close> in the serialized text and
  changes nothing else, wherever the occurrence is: in a key or in a string value. The
  filter of the middleware is the deserialized result. The query \<^verbatim>\<open>price[gt]=50\<close>, that
  is the object \<open>{price: {gt: "50"}}\<close>, gives the filter \<open>{price: {$gt: "50"}}\<close> with the
  string \<open>"50"\<close>; the string value \<open>"in"\<close> becomes \<open>"$in"\<close>.
\<close>

theorem operator_rewrite:
  "replace_operators s = spec_rewrite s \<and>
   rewrite_filter (Some ps) = JSON_parse (spec_rewrite (stringify (Obj ps))) \<and>
   rewrite_filter (Some [(''price'', Obj [(''gt'', Str ''50'')])])
     = Inr (Obj [(''price'', Obj [(''$gt'', Str ''50'')])]) \<and>
   rewrite_filter (Some [(''name'', Str ''in'')]) = Inr (Obj [(''name'', Str ''$in'')])"
proof -
  have a: "rewrite_filter (Some [(''price'', Obj [(''gt'', Str ''50'')])])
             = Inr (Obj [(''price'', Obj [(''$gt'', Str ''50'')])])"
    by code_simp
  have b: "rewrite_filter (Some [(''name'', Str ''in'')]) = Inr (Obj [(''name'', Str ''$in'')])"
    by code_simp
  show ?thesis
    using a b by (simp add: replace_operators_spec rewrite_filter_def)
qed

theorem operator_rewrite_witness:
  "spec_rewrite (stringify (Obj [(''a'', Str ''lte in begin''), (''gte'', Str ''gt$gt'')]))
     = stringify (Obj [(''a'', Str ''$lte $in begin''), (''$gte'', Str ''$gt$$gt'')]) \<and>
   JSON_parse (spec_rewrite (stringify (Obj [(''a'', Str ''lte in begin''), (''gte'', Str ''gt$gt'')])))
     = Inr (Obj [(''a'', Str ''$lte $in begin''), (''$gte'', Str ''$gt$$gt'')])"
proof -
  let ?ps = "[(''a'', Str ''lte in begin''), (''gte'', Str ''gt$gt'')]"
  have a: "replace_operators (stringify (Obj ?ps))
             = stringify (Obj [(''a'', Str ''$lte $in begin''), (''$gte'', Str ''$gt$$gt'')])"
    by code_simp
  have b: "rewrite_filter (Some ?ps)
             = Inr (Obj [(''a'', Str ''$lte $in begin''), (''$gte'', Str ''$gt$$gt'')])"
    by code_simp
  show ?thesis
    using operator_rewrite [of "stringify (Obj ?ps)" ?ps] a b by simp
qed


subsection \<open>Serializing and deserializing\<close>

text \<open>
  Every value the deserializer reads takes at least one character, so the length tests
  in \<open>parse_elements\<close> and \<open>parse_members\<close> are never the reason for a rejection: the
  two functions satisfy their equations without the tests.
\<close>

lemma parse_chars_shorter: "parse_chars s = Some (k, r) \<Longrightarrow> length r < length s"
proof (induction s arbitrary: k r rule: parse_chars.induct)
  case 1
  then show ?case by simp
next
  case (2 c cs)
  show ?case
  proof (cases "c = CHR 0x22")
    case True
    with "2.prems" show ?thesis by simp
  next
    case q: False
    show ?thesis
    proof (cases "c = CHR 0x5C")
      case False
      with q "2.prems" obtain k' where n: "\<not> of_char c < (32::nat)"
        and "parse_chars cs = Some (k', r)"
        by (auto simp: cons_fst_def split: if_splits)
      with "2.IH"(3) [OF q False n] have "length r < length cs"
        by blast
      then show ?thesis
        by simp
    next
      case True
      with q "2.prems" obtain e rest where cs: "cs = e # rest"
        by (cases cs) auto
      show ?thesis
      proof (cases "e = CHR ''u''")
        case u: True
        with q True cs "2.prems" obtain x k'
          where x: "unicode_escape (take 4 rest) = Some x"
            and "parse_chars (drop 4 rest) = Some (k', r)"
          by (auto simp: cons_fst_def split: option.splits)
        with "2.IH"(1) [OF q True cs u x] have "length r < length (drop 4 rest)"
          by blast
        then show ?thesis
          using cs by simp
      next
        case nu: False
        with q True cs "2.prems" obtain x k'
          where x: "unescape e = Some x" and "parse_chars rest = Some (k', r)"
          by (auto simp: cons_fst_def split: option.splits)
        with "2.IH"(2) [OF q True cs nu x] have "length r < length rest"
          by blast
        then show ?thesis
          using cs by simp
      qed
    qed
  qed
qed

lemma parse_shorter:
  "parse_value s = Some (v, r) \<Longrightarrow> length r < length s"
  "parse_elements s' = Some (vs, r') \<Longrightarrow> length r' < length s'"
  "parse_members acc s'' = Some (ps, r'') \<Longrightarrow> length r'' < length s''"
proof (induction s and s' and acc s'' arbitrary: v r and vs r' and ps r''
       rule: parse_value_parse_elements_parse_members.induct)
  case 1
  then show ?case by simp
next
  case (2 c cs)
  then show ?case
    by (auto split: if_splits list.splits dest!: parse_chars_shorter) fastforce+
next
  case (3 s)
  from "3.prems" obtain v d r1 where pv: "parse_value s = Some (v, d # r1)"
    by (subst (asm) parse_elements.simps) (auto split: option.splits list.splits)
  have l1: "length (d # r1) < length s"
    by (rule "3.IH"(1) [OF pv])
  show ?case
  proof (cases "d = CHR '']''")
    case True
    with pv "3.prems" have "r' = r1"
      by (subst (asm) parse_elements.simps) simp
    with l1 show ?thesis
      by simp
  next
    case False
    with pv "3.prems" obtain vs' where g: "d = CHR '','' \<and> length r1 < length s"
      and "parse_elements r1 = Some (vs', r')"
      by (subst (asm) parse_elements.simps) (auto simp: cons_fst_def split: if_splits)
    with "3.IH"(2) [OF pv refl refl False g] have "length r' < length r1"
      by blast
    with g show ?thesis
      by simp
  qed
next
  case (4 acc s)
  from "4.prems" obtain q s1 k col s3 v d r1
    where s: "s = q # s1" and q: "\<not> q \<noteq> CHR 0x22"
      and pc: "parse_chars s1 = Some (k, col # s3)"
      and g1: "\<not> (col \<noteq> CHR '':'' \<or> \<not> length s3 < length s)"
      and pv: "parse_value s3 = Some (v, d # r1)"
    by (subst (asm) parse_members.simps) (auto split: list.splits option.splits if_splits)
  have l1: "length (d # r1) < length s3"
    by (rule "4.IH"(1) [OF s q pc refl refl g1 pv])
  show ?case
  proof (cases "d = CHR ''}''")
    case True
    with s q pc g1 pv "4.prems" have "r'' = r1"
      by (subst (asm) parse_members.simps) simp
    with l1 g1 show ?thesis
      by simp
  next
    case False
    with s q pc g1 pv "4.prems" have g2: "d = CHR '','' \<and> length r1 < length s"
      and pm: "parse_members (set_prop acc k v) r1 = Some (ps, r'')"
      by (subst (asm) parse_members.simps, simp split: if_splits)+
    from "4.IH"(2) [OF s q pc refl refl g1 pv refl refl False g2 pm] g2 show ?thesis
      by simp
  qed
qed

lemma parse_elements_eq:
  "parse_elements s =
     (case parse_value s of
        None \<Rightarrow> None
      | Some (v, r) \<Rightarrow>
          (case r of
             [] \<Rightarrow> None
           | d # r' \<Rightarrow>
               if d = CHR '']'' then Some ([v], r')
               else if d = CHR '','' then cons_fst v (parse_elements r')
               else None))"
proof (cases "parse_value s")
  case None
  then show ?thesis
    by (subst parse_elements.simps) simp
next
  case (Some vr)
  obtain v r where vr: "vr = (v, r)"
    by (cases vr)
  show ?thesis
  proof (cases r)
    case Nil
    with Some vr show ?thesis
      by (subst parse_elements.simps) simp
  next
    case (Cons d r')
    with Some vr have "length r' < length s"
      using parse_shorter(1) [of s v r] by simp
    with Some vr Cons show ?thesis
      by (subst parse_elements.simps) simp
  qed
qed

lemma parse_members_eq:
  "parse_members acc s =
     (case s of
        [] \<Rightarrow> None
      | q # s1 \<Rightarrow>
          if q \<noteq> CHR 0x22 then None
          else
            (case parse_chars s1 of
               None \<Rightarrow> None
             | Some (k, s2) \<Rightarrow>
                 (case s2 of
                    [] \<Rightarrow> None
                  | col # s3 \<Rightarrow>
                      if col \<noteq> CHR '':'' then None
                      else
                        (case parse_value s3 of
                           None \<Rightarrow> None
                         | Some (v, r) \<Rightarrow>
                             (case r of
                                [] \<Rightarrow> None
                              | d # r' \<Rightarrow>
                                  if d = CHR ''}'' then Some (set_prop acc k v, r')
                                  else if d = CHR '',''
                                    then parse_members (set_prop acc k v) r'
                                  else None)))))"
proof (cases s)
  case Nil
  then show ?thesis
    by (subst parse_members.simps) simp
next
  case s: (Cons q s1)
  show ?thesis
  proof (cases "parse_chars s1")
    case None
    with s show ?thesis
      by (subst parse_members.simps) simp
  next
    case (Some ks)
    obtain k s2 where ks: "ks = (k, s2)"
      by (cases ks)
    show ?thesis
    proof (cases s2)
      case Nil
      with s Some ks show ?thesis
        by (subst parse_members.simps) simp
    next
      case s2: (Cons col s3)
      have a: "length s3 < length s"
        using parse_chars_shorter [of s1 k s2] Some ks s2 s by simp
      show ?thesis
      proof (cases "parse_value s3")
        case None
        with s Some ks s2 a show ?thesis
          by (subst parse_members.simps) simp
      next
        case pv: (Some vr)
        obtain v r where vr: "vr = (v, r)"
          by (cases vr)
        show ?thesis
        proof (cases r)
          case Nil
          with s Some ks s2 a pv vr show ?thesis
            by (subst parse_members.simps) simp
        next
          case (Cons d r')
          have "length r' < length s"
            using parse_shorter(1) [of s3 v r] pv vr Cons a by simp
          with s Some ks s2 a pv vr Cons show ?thesis
            by (subst parse_members.simps) simp
        qed
      qed
    qed
  qed
qed

lemma hex_val_hex_digit: "k < 16 \<Longrightarrow> hex_val (hex_digit k) = Some k"
proof -
  have "\<forall>k \<in> set [0..<16]. hex_val (hex_digit k) = Some k"
    by code_simp
  moreover assume "k < 16"
  ultimately show ?thesis
    by simp
qed

lemma unicode_escape_control:
  assumes "of_char c < (32::nat)"
  shows "unicode_escape [CHR ''0'', CHR ''0'', hex_digit (of_char c div 16),
                         hex_digit (of_char c mod 16)] = Some c"
proof -
  let ?n = "of_char c :: nat"
  have z: "hex_val (CHR ''0'') = Some 0"
    by code_simp
  have "?n div 16 < 16"
    using assms by simp
  then have a: "hex_val (hex_digit (?n div 16)) = Some (?n div 16)"
    by (rule hex_val_hex_digit)
  have b: "hex_val (hex_digit (?n mod 16)) = Some (?n mod 16)"
    by (rule hex_val_hex_digit) simp
  have "char_of (16 * (?n div 16) + ?n mod 16) = c"
    by simp
  then show ?thesis
    by (simp add: unicode_escape_def z a b)
qed

lemma parse_chars_escape:
  "parse_chars (escape_char c @ rest) = cons_fst c (parse_chars rest)"
proof -
  consider (short) "c \<in> set [CHR 0x22, CHR 0x5C, CHR 0x08, CHR 0x0C, CHR 0x0A, CHR 0x0D, CHR 0x09]"
    | (control) "c \<notin> set [CHR 0x22, CHR 0x5C, CHR 0x08, CHR 0x0C, CHR 0x0A, CHR 0x0D, CHR 0x09]"
        "of_char c < (32::nat)"
    | (plain) "c \<notin> set [CHR 0x22, CHR 0x5C, CHR 0x08, CHR 0x0C, CHR 0x0A, CHR 0x0D, CHR 0x09]"
        "\<not> of_char c < (32::nat)"
    by blast
  then show ?thesis
  proof cases
    case short
    then show ?thesis
      by (auto simp: escape_char_def unescape_def)
  next
    case control
    then show ?thesis
      using unicode_escape_control [of c]
      by (simp add: escape_char_def)
  next
    case plain
    then show ?thesis
      by (simp add: escape_char_def)
  qed
qed

lemma parse_chars_quote:
  "parse_chars (concat (map escape_char s) @ CHR 0x22 # rest) = Some (s, rest)"
  by (induction s) (simp_all add: parse_chars_escape cons_fst_def)

lemma parse_value_Str: "parse_value (quote s @ rest) = Some (Str s, rest)"
  by (simp add: quote_def parse_chars_quote)


lemma stringify_first:
  "\<exists>c r. stringify v = c # r \<and> c \<noteq> CHR '']'' \<and> c \<noteq> CHR ''}''"
  by (cases v) (simp_all add: quote_def)

lemma parse_elements_sep:
  assumes "\<And>x rest. x \<in> set (y # ys) \<Longrightarrow> parse_value (f x @ rest) = Some (g x, rest)"
  shows "parse_elements (join '','' (map f (y # ys)) @ CHR '']'' # rest)
           = Some (map g (y # ys), rest)"
  using assms
proof (induction ys arbitrary: y)
  case Nil
  then have "parse_value (f y @ CHR '']'' # rest) = Some (g y, CHR '']'' # rest)"
    by simp
  then show ?case
    by (subst parse_elements.simps) simp
next
  case (Cons z zs)
  define tail where "tail = join '','' (map f (z # zs)) @ CHR '']'' # rest"
  have v: "parse_value (f y @ CHR '','' # tail) = Some (g y, CHR '','' # tail)"
    using Cons.prems by simp
  have r: "parse_elements tail = Some (map g (z # zs), rest)"
    unfolding tail_def using Cons.prems by (intro Cons.IH) simp
  have "parse_elements (f y @ CHR '','' # tail) = Some (map g (y # z # zs), rest)"
    by (subst parse_elements.simps) (simp add: v r cons_fst_def)
  then show ?case
    by (simp add: tail_def)
qed

lemma parse_members_sep:
  assumes "\<And>kv rest. kv \<in> set (p # ps)
             \<Longrightarrow> parse_chars (bk kv @ CHR 0x22 # rest) = Some (gk kv, rest)"
      and "\<And>kv rest. kv \<in> set (p # ps)
             \<Longrightarrow> parse_value (fv kv @ rest) = Some (gv kv, rest)"
  shows "parse_members acc
           (join '','' (map (\<lambda>kv. CHR 0x22 # bk kv @ CHR 0x22 # CHR '':'' # fv kv) (p # ps))
            @ CHR ''}'' # rest)
           = Some (foldl (\<lambda>a kv. set_prop a (gk kv) (gv kv)) acc (p # ps), rest)"
  using assms
proof (induction ps arbitrary: p acc)
  case Nil
  have k: "parse_chars (bk p @ CHR 0x22 # CHR '':'' # fv p @ CHR ''}'' # rest)
             = Some (gk p, CHR '':'' # fv p @ CHR ''}'' # rest)"
    using Nil.prems(1) [of p] by simp
  have v: "parse_value (fv p @ CHR ''}'' # rest) = Some (gv p, CHR ''}'' # rest)"
    using Nil.prems(2) [of p] by simp
  have "parse_members acc (CHR 0x22 # bk p @ CHR 0x22 # CHR '':'' # fv p @ CHR ''}'' # rest)
          = Some (set_prop acc (gk p) (gv p), rest)"
    by (subst parse_members.simps) (simp add: k v)
  then show ?case
    by simp
next
  case (Cons p' ps)
  define tail where
    "tail = join '','' (map (\<lambda>kv. CHR 0x22 # bk kv @ CHR 0x22 # CHR '':'' # fv kv) (p' # ps))
              @ CHR ''}'' # rest"
  have k: "parse_chars (bk p @ CHR 0x22 # CHR '':'' # fv p @ CHR '','' # tail)
             = Some (gk p, CHR '':'' # fv p @ CHR '','' # tail)"
    using Cons.prems(1) [of p] by simp
  have v: "parse_value (fv p @ CHR '','' # tail) = Some (gv p, CHR '','' # tail)"
    using Cons.prems(2) [of p] by simp
  have r: "parse_members (set_prop acc (gk p) (gv p)) tail
             = Some (foldl (\<lambda>a kv. set_prop a (gk kv) (gv kv))
                       (set_prop acc (gk p) (gv p)) (p' # ps), rest)"
    unfolding tail_def using Cons.prems by (intro Cons.IH) simp_all
  have "parse_members acc (CHR 0x22 # bk p @ CHR 0x22 # CHR '':'' # fv p @ CHR '','' # tail)
          = Some (foldl (\<lambda>a kv. set_prop a (gk kv) (gv kv)) acc (p # p' # ps), rest)"
    by (subst parse_members.simps) (simp add: k v r)
  then show ?case
    by (simp add: tail_def)
qed

lemma escape_simps [simp]:
  "escape [] = []" "escape (c # s) = escape_char c @ escape s"
  "escape (s @ s') = escape s @ escape s'"
  by (simp_all add: escape_def)

lemma set_prop_fresh: "k \<notin> fst ` set acc \<Longrightarrow> set_prop acc k v = acc @ [(k, v)]"
  by (simp add: set_prop_def)

lemma foldl_set_prop_distinct:
  "distinct (map fst (acc @ ps))
     \<Longrightarrow> foldl (\<lambda>a kv. set_prop a (fst kv) (snd kv)) acc ps = acc @ ps"
proof (induction ps arbitrary: acc)
  case Nil
  then show ?case by simp
next
  case (Cons p ps)
  then have "fst p \<notin> fst ` set acc"
    by auto
  then have "set_prop acc (fst p) (snd p) = acc @ [p]"
    by (simp add: set_prop_fresh)
  then show ?case
    using Cons.IH [of "acc @ [p]"] Cons.prems by simp
qed

lemma stringify_Obj: "stringify (Obj ps) = ''{'' @ join '','' (map member ps) @ ''}''"
  by (simp add: member_def [abs_def])

lemma member_text:
  "member = (\<lambda>kv. CHR 0x22 # escape (fst kv) @ CHR 0x22 # CHR '':'' # stringify (snd kv))"
  by (simp add: member_def quote_def escape_def fun_eq_iff)

lemma parse_value_stringify:
  "distinct_keys v \<Longrightarrow> parse_value (stringify v @ rest) = Some (v, rest)"
proof (induction v arbitrary: rest)
  case (Str s)
  then show ?case
    using parse_value_Str [of s rest] by simp
next
  case (Arr xs)
  show ?case
  proof (cases xs)
    case Nil
    then show ?thesis by simp
  next
    case (Cons y ys)
    have "parse_elements (join '','' (map stringify (y # ys)) @ CHR '']'' # rest)
            = Some (map (\<lambda>x. x) (y # ys), rest)"
      using Arr Cons by (intro parse_elements_sep) auto
    then have e: "parse_elements (join '','' (map stringify (y # ys)) @ CHR '']'' # rest)
                    = Some (y # ys, rest)"
      by simp
    obtain c r where c: "stringify y = c # r" "c \<noteq> CHR '']''"
      using stringify_first [of y] by blast
    then obtain r' where j: "join '','' (map stringify (y # ys)) = c # r'"
      by (cases ys) auto
    show ?thesis
      using e c(2) unfolding Cons stringify.simps j by simp
  qed
next
  case (Obj ps)
  show ?case
  proof (cases ps)
    case Nil
    then show ?thesis by simp
  next
    case (Cons p ps')
    have "parse_members [] (join '','' (map member (p # ps')) @ CHR ''}'' # rest)
            = Some (foldl (\<lambda>a kv. set_prop a (fst kv) (snd kv)) [] (p # ps'), rest)"
      unfolding member_text
    proof (rule parse_members_sep)
      fix kv :: "string \<times> jsv" and rest'
      show "parse_chars (escape (fst kv) @ CHR 0x22 # rest') = Some (fst kv, rest')"
        by (simp add: escape_def parse_chars_quote)
    next
      fix kv rest'
      assume "kv \<in> set (p # ps')"
      then have "kv \<in> set ps" and "distinct_keys (snd kv)"
        using Obj.prems Cons by auto
      then show "parse_value (stringify (snd kv) @ rest') = Some (snd kv, rest')"
        by (intro Obj.IH [of kv]) (auto intro: Basic_BNFs.snds.intros)
    qed
    moreover have "foldl (\<lambda>a kv. set_prop a (fst kv) (snd kv)) [] (p # ps') = [] @ p # ps'"
      using Obj.prems Cons by (intro foldl_set_prop_distinct) simp
    ultimately have m: "parse_members [] (join '','' (map member (p # ps')) @ CHR ''}'' # rest)
                          = Some (p # ps', rest)"
      by simp
    obtain r' where j: "join '','' (map member (p # ps')) = CHR 0x22 # r'"
      by (cases ps') (auto simp: member_def quote_def)
    show ?thesis
      using m unfolding Cons stringify_Obj j by simp
  qed
qed

lemma JSON_parse_stringify: "distinct_keys v \<Longrightarrow> JSON_parse (stringify v) = Inr v"
  using parse_value_stringify [of v "[]"] by (simp add: JSON_parse_def)

lemma concat_unmarked:
  "\<forall>i \<in> set xs. spec_mark s i = []
     \<Longrightarrow> concat (map (\<lambda>i. spec_mark s i @ [s ! i]) xs) = map ((!) s) xs"
  by (induction xs) simp_all

lemma spec_rewrite_id:
  assumes "\<forall>i < length s. \<forall>t \<in> set operators. \<not> spec_standalone s i t"
  shows "spec_rewrite s = s"
proof -
  have "\<forall>i \<in> set [0..<length s]. spec_mark s i = []"
    using assms by (simp add: spec_mark_def)
  then have "spec_rewrite s = map ((!) s) [0..<length s]"
    unfolding spec_rewrite_def by (rule concat_unmarked)
  then show ?thesis
    by (simp add: map_nth)
qed


text \<open>
  C4. When the serialized form of the filter object has no standalone occurrence of
  \<^verbatim>\<open>gt\<close>, \<^verbatim>\<open>gte\<close>, \<^verbatim>\<open>lt\<close>, \<^verbatim>\<open>lte\<close> or \<^verbatim>\<open>in\<close>, the rewrite leaves the text as it is and
  deserializing gives the filter object back: the filter is the query parameters as
  they are, a plain equality filter.
\<close>

theorem rewrite_identity:
  assumes "distinct_keys (Obj ps)"
      and "\<forall>i < length (stringify (Obj ps)). \<forall>t \<in> set operators.
             \<not> spec_standalone (stringify (Obj ps)) i t"
    shows "replace_operators (stringify (Obj ps)) = stringify (Obj ps) \<and>
           rewrite_filter (Some ps) = Inr (Obj ps)"
proof -
  have "replace_operators (stringify (Obj ps)) = stringify (Obj ps)"
    using spec_rewrite_id [OF assms(2)] by (simp add: replace_operators_spec)
  then show ?thesis
    using JSON_parse_stringify [OF assms(1)] by (simp add: rewrite_filter_def)
qed

theorem rewrite_identity_witness:
  "distinct_keys (Obj [(''name'', Str ''begin''), (''tags'', Arr [Str ''a b'', Str ''lt3''])]) \<and>
   rewrite_filter (Some [(''name'', Str ''begin''), (''tags'', Arr [Str ''a b'', Str ''lt3''])])
     = Inr (Obj [(''name'', Str ''begin''), (''tags'', Arr [Str ''a b'', Str ''lt3''])])"
proof -
  let ?ps = "[(''name'', Str ''begin''), (''tags'', Arr [Str ''a b'', Str ''lt3''])]"
  have a: "distinct_keys (Obj ?ps)"
    by code_simp
  define s where "s = stringify (Obj ?ps)"
  have "\<forall>i \<in> set [0..<length s]. \<forall>t \<in> set operators. \<not> spec_standalone s i t"
    unfolding s_def by code_simp
  then have "\<forall>i < length s. \<forall>t \<in> set operators. \<not> spec_standalone s i t"
    by simp
  then have b: "\<forall>i < length (stringify (Obj ?ps)). \<forall>t \<in> set operators.
                  \<not> spec_standalone (stringify (Obj ?ps)) i t"
    unfolding s_def .
  show ?thesis
    using rewrite_identity [OF a b] a by simp
qed

subsection \<open>The rewritten text always deserializes\<close>






























subsection \<open>The outcome of an invocation\<close>











end
